theory Spec2Isabelle
  imports Main "HOL-Library.Word"
begin

section \<open>Data model of storage/key\_index.go\<close>

text \<open>
  Modelled from the spec: the struct \<open>reversion\<close> is declared in another file of the
  package. This file builds it positionally as \<open>reversion{rev, subrev}\<close> and reads its
  field \<open>main\<close>; the spec names the second field \<open>sub\<close>.

  The \<open>int64\<close> revision numbers are embedded as the integers they denote: the code
  only copies them and compares them with the signed \<open><\<close> and \<open><=\<close>, it never
  computes with them. The counter \<open>ver\<close> is incremented, so it is a 64-bit word and
  \<open>+ 1\<close> wraps.
\<close>

record reversion =
  main :: int
  sub :: int

record generation =
  ver :: "64 word"
  revs :: "reversion list"

text \<open>
  The field \<open>rev\<close> of \<open>keyIndex\<close> is named \<open>rev_ki\<close> here, since \<open>rev\<close> is list
  reversal in HOL. A Go slice that is nil and one that is empty both have length 0 and
  are the empty list.
\<close>

record keyIndex =
  key :: "8 word list"
  rev_ki :: int
  generations :: "generation list"

text \<open>
  \<open>log.Panicf\<close> and \<open>log.Panic\<close> abort the call; \<open>ErrReversionNotFound\<close> is the
  error value \<open>get\<close> returns. Every panic of this file is raised before the first write
  of its operation, so a panicking call leaves the receiver as it found it and the error
  carries no state.
\<close>

datatype error =
    PanicPutSmaller
  | PanicTombstoneEmpty
  | PanicGetEmpty
  | PanicCompactEmpty
  | ErrReversionNotFound

text \<open>The composite literal \<open>generation{}\<close>: every field has its zero value.\<close>

definition generation_zero :: generation where
  "generation_zero = \<lparr>ver = 0, revs = []\<rparr>"

text \<open>
  \<open>func (g *generation) isEmpty() bool { return g == nil || len(g.revs) == 0 }\<close>.
  The receiver is a pointer, which may be nil: \<open>None\<close>.
\<close>

definition generation_isEmpty :: "generation option \<Rightarrow> bool" where
  "generation_isEmpty g = (case g of None \<Rightarrow> True | Some g' \<Rightarrow> length (revs g') = 0)"

text \<open>
  \<open>return len(ki.generations) == 1 && ki.generations[0].isEmpty()\<close>; the index 0 is
  read only when the length is 1.
\<close>

definition isEmpty :: "keyIndex \<Rightarrow> bool" where
  "isEmpty ki =
     (length (generations ki) = 1 \<and> generation_isEmpty (Some (generations ki ! 0)))"

section \<open>Mutation\<close>

text \<open>
  \<open>put\<close>: panic on a smaller revision; create the first generation when there is
  none; append to the last generation, increment its \<open>ver\<close>, store \<open>rev\<close>.
  After the \<open>append\<close> the list is not empty, so the index \<open>len - 1\<close> is in range.
\<close>

definition put :: "keyIndex \<Rightarrow> int \<Rightarrow> int \<Rightarrow> error + keyIndex" where
  "put ki rv subrev =
     (if rv < rev_ki ki then Inl PanicPutSmaller
      else
        let gens = (if length (generations ki) = 0
                    then generations ki @ [generation_zero] else generations ki);
            l = length gens - 1;
            g = gens ! l;
            g1 = g\<lparr>revs := revs g @ [\<lparr>main = rv, sub = subrev\<rparr>]\<rparr>;
            g2 = g1\<lparr>ver := ver g1 + 1\<rparr>
        in Inr (ki\<lparr>generations := gens[l := g2], rev_ki := rv\<rparr>))"

text \<open>
  \<open>tombstone\<close>: panic when \<open>isEmpty\<close>, then \<open>put\<close> (whose panic propagates), then
  append a new empty generation.
\<close>

definition tombstone :: "keyIndex \<Rightarrow> int \<Rightarrow> int \<Rightarrow> error + keyIndex" where
  "tombstone ki rv subrev =
     (if isEmpty ki then Inl PanicTombstoneEmpty
      else case put ki rv subrev of
             Inl e \<Rightarrow> Inl e
           | Inr ki1 \<Rightarrow> Inr (ki1\<lparr>generations := generations ki1 @ [generation_zero]\<rparr>))"

section \<open>Searching\<close>

text \<open>
  \<open>findGeneration\<close>: the loop counts \<open>cg\<close> down from \<open>len - 1\<close> while \<open>cg >= 0\<close>.
  The counter of the model is \<open>cg + 1\<close>, so that the exit \<open>cg = -1\<close> is \<open>0\<close>.
  The pointer \<open>&ki.generations[cg]\<close> is the index \<open>cg\<close>; nil is \<open>None\<close>.
\<close>

fun findGeneration_loop :: "generation list \<Rightarrow> int \<Rightarrow> nat \<Rightarrow> nat option" where
  "findGeneration_loop gens rv 0 = None"
| "findGeneration_loop gens rv (Suc cg) =
     (if length (revs (gens ! cg)) = 0 then findGeneration_loop gens rv cg
      else if main (revs (gens ! cg) ! 0) \<le> rv then Some cg
      else findGeneration_loop gens rv cg)"

definition findGeneration :: "keyIndex \<Rightarrow> int \<Rightarrow> nat option" where
  "findGeneration ki rv = findGeneration_loop (generations ki) rv (length (generations ki))"

text \<open>
  \<open>walk\<close> calls \<open>f\<close> on \<open>g.revs[l-i-1]\<close> for \<open>i = 0, 1, ...\<close> and returns that index
  at the first \<open>false\<close>, or \<open>-1\<close>. The closure passed by \<open>compact\<close> writes to the map
  \<open>available\<close>, so \<open>f\<close> takes and returns the state it captures. The counter of the model
  is \<open>l - i\<close>.
\<close>

fun walk_loop ::
  "(reversion \<Rightarrow> 's \<Rightarrow> bool \<times> 's) \<Rightarrow> reversion list \<Rightarrow> nat \<Rightarrow> 's \<Rightarrow> int \<times> 's" where
  "walk_loop f rs 0 s = (- 1, s)"
| "walk_loop f rs (Suc k) s =
     (case f (rs ! k) s of
        (ok, s1) \<Rightarrow> if \<not> ok then (int k, s1) else walk_loop f rs k s1)"

definition walk ::
  "generation \<Rightarrow> (reversion \<Rightarrow> 's \<Rightarrow> bool \<times> 's) \<Rightarrow> 's \<Rightarrow> int \<times> 's" where
  "walk g f s = walk_loop f (revs g) (length (revs g)) s"

section \<open>Point-in-time read\<close>

text \<open>The closure of \<open>get\<close>: it captures \<open>atRev\<close> only and writes nothing.\<close>

definition get_f :: "int \<Rightarrow> reversion \<Rightarrow> unit \<Rightarrow> bool \<times> unit" where
  "get_f atRev r s = (if main r \<le> atRev then (False, s) else (True, s))"

definition get :: "keyIndex \<Rightarrow> int \<Rightarrow> error + reversion" where
  "get ki atRev =
     (if isEmpty ki then Inl PanicGetEmpty
      else
        let g = findGeneration ki atRev in
        if generation_isEmpty (map_option (\<lambda>i. generations ki ! i) g)
        then Inl ErrReversionNotFound
        else case g of
               None \<Rightarrow> Inl ErrReversionNotFound
             | Some i \<Rightarrow>
                 let n = fst (walk (generations ki ! i) (get_f atRev) ()) in
                 if n \<noteq> - 1 then Inr (revs (generations ki ! i) ! nat n)
                 else Inl ErrReversionNotFound)"

section \<open>Compaction\<close>

text \<open>The closure of \<open>compact\<close>: it adds the revision it stops at to \<open>available\<close>.\<close>

definition compact_f :: "int \<Rightarrow> reversion \<Rightarrow> reversion set \<Rightarrow> bool \<times> reversion set" where
  "compact_f atRev r available =
     (if main r \<le> atRev then (False, insert r available) else (True, available))"

text \<open>
  The loop that recovers the position of \<open>g\<close>:
  \<open>i := 0; for i <= len(ki.generations)-1 { if &ki.generations[i] == g { break }; i++ }\<close>.
  Two pointers into the slice are equal when their indices are.
\<close>

function position_loop :: "nat \<Rightarrow> nat \<Rightarrow> nat \<Rightarrow> nat" where
  "position_loop len g i =
     (if int i \<le> int len - 1 then (if i = g then i else position_loop len g (i + 1)) else i)"
  by pat_completeness auto
termination
  by (relation "measure (\<lambda>(len, g, i). len - i)") auto

text \<open>
  \<open>compact\<close>. \<open>g\<close> points into \<open>ki.generations\<close>, so the assignment to \<open>g.revs\<close>
  updates the element at its position; \<open>g.revs[n:]\<close> and \<open>ki.generations[i:]\<close> are
  \<open>drop\<close>. The result is the index and the map \<open>available\<close> after the call.
\<close>

definition compact ::
  "keyIndex \<Rightarrow> int \<Rightarrow> reversion set \<Rightarrow> error + (keyIndex \<times> reversion set)" where
  "compact ki atRev available =
     (if isEmpty ki then Inl PanicCompactEmpty
      else case findGeneration ki atRev of
             None \<Rightarrow> Inr (ki, available)
           | Some gi \<Rightarrow>
               let gens = generations ki;
                   i = position_loop (length gens) gi 0;
                   g = gens ! gi
               in if \<not> generation_isEmpty (Some g) then
                    let (n, av1) = walk g (compact_f atRev) available;
                        g1 = (if n \<noteq> - 1 then g\<lparr>revs := drop (nat n) (revs g)\<rparr> else g);
                        gens1 = gens[gi := g1]
                    in if length (revs g1) = 1 \<and> int i \<noteq> int (length gens1) - 1
                       then Inr (ki\<lparr>generations := drop (i + 1) gens1\<rparr>, av1 - {revs g1 ! 0})
                       else Inr (ki\<lparr>generations := drop i gens1\<rparr>, av1)
                  else Inr (ki\<lparr>generations := drop i gens\<rparr>, available))"

text \<open>
  The index and the map \<open>available\<close> as a call of \<open>compact\<close> leaves them in memory.
  When the call returns they are its results. The only panic of \<open>compact\<close> is raised by
  the guard in its first statement, before any write to the index or to \<open>available\<close>, so
  a panicking call leaves both as it found them.
\<close>

definition compact_post ::
  "keyIndex \<Rightarrow> int \<Rightarrow> reversion set \<Rightarrow> keyIndex \<times> reversion set" where
  "compact_post ki atRev available =
     (case compact ki atRev available of
        Inl e \<Rightarrow> (ki, available)
      | Inr res \<Rightarrow> res)"

section \<open>Sequences of writes\<close>

text \<open>
  A key index as the store creates it, \<open>&keyIndex{key: k}\<close>, and a sequence of calls of
  \<open>put\<close> and \<open>tombstone\<close> on it, stopping at the first panic.
\<close>

definition newKeyIndex :: "8 word list \<Rightarrow> keyIndex" where
  "newKeyIndex k = \<lparr>key = k, rev_ki = 0, generations = []\<rparr>"

datatype mutation = Put int int | Tombstone int int

fun mutation_main :: "mutation \<Rightarrow> int" where
  "mutation_main (Put rv subrev) = rv"
| "mutation_main (Tombstone rv subrev) = rv"

fun apply_mutation :: "keyIndex \<Rightarrow> mutation \<Rightarrow> error + keyIndex" where
  "apply_mutation ki (Put rv subrev) = put ki rv subrev"
| "apply_mutation ki (Tombstone rv subrev) = tombstone ki rv subrev"

fun apply_mutations :: "keyIndex \<Rightarrow> mutation list \<Rightarrow> error + keyIndex" where
  "apply_mutations ki [] = Inr ki"
| "apply_mutations ki (w # ws) =
     (case apply_mutation ki w of Inl e \<Rightarrow> Inl e | Inr ki1 \<Rightarrow> apply_mutations ki1 ws)"

text \<open>
  The scenario of the type's comment on key "foo":
  \<open>put(1.0); put(2.0); tombstone(3.0); put(4.0); tombstone(5.0)\<close>.
\<close>

definition foo :: "8 word list" where
  "foo = [102, 111, 111]"

definition scenario_writes :: "mutation list" where
  "scenario_writes = [Put 1 0, Put 2 0, Tombstone 3 0, Put 4 0, Tombstone 5 0]"

definition scenario :: keyIndex where
  "scenario =
     \<lparr>key = foo, rev_ki = 5,
      generations =
        [\<lparr>ver = 3, revs = [\<lparr>main = 1, sub = 0\<rparr>, \<lparr>main = 2, sub = 0\<rparr>, \<lparr>main = 3, sub = 0\<rparr>]\<rparr>,
         \<lparr>ver = 2, revs = [\<lparr>main = 4, sub = 0\<rparr>, \<lparr>main = 5, sub = 0\<rparr>]\<rparr>,
         \<lparr>ver = 0, revs = []\<rparr>]\<rparr>"

text \<open>
  The states the scenario passes through under \<open>compact(2)\<close>, \<open>compact(4)\<close> and
  \<open>compact(5)\<close>, applied one after the other.
\<close>

definition scenario_c2 :: keyIndex where
  "scenario_c2 =
     \<lparr>key = foo, rev_ki = 5,
      generations =
        [\<lparr>ver = 3, revs = [\<lparr>main = 2, sub = 0\<rparr>, \<lparr>main = 3, sub = 0\<rparr>]\<rparr>,
         \<lparr>ver = 2, revs = [\<lparr>main = 4, sub = 0\<rparr>, \<lparr>main = 5, sub = 0\<rparr>]\<rparr>,
         \<lparr>ver = 0, revs = []\<rparr>]\<rparr>"

definition scenario_c4 :: keyIndex where
  "scenario_c4 =
     \<lparr>key = foo, rev_ki = 5,
      generations =
        [\<lparr>ver = 2, revs = [\<lparr>main = 4, sub = 0\<rparr>, \<lparr>main = 5, sub = 0\<rparr>]\<rparr>,
         \<lparr>ver = 0, revs = []\<rparr>]\<rparr>"

definition scenario_c5 :: keyIndex where
  "scenario_c5 = \<lparr>key = foo, rev_ki = 5, generations = [\<lparr>ver = 0, revs = []\<rparr>]\<rparr>"

section \<open>The lookup in the words of the specification\<close>

text \<open>
  A generation qualifies at \<open>atRev\<close> when it is not empty and the \<open>main\<close> of its
  earliest revision is at most \<open>atRev\<close>.
\<close>

definition qualifies :: "int \<Rightarrow> generation \<Rightarrow> bool" where
  "qualifies atRev g = (revs g \<noteq> [] \<and> main (hd (revs g)) \<le> atRev)"

text \<open>
  \<open>get_spec\<close> follows the specification, not the code: scan the generations from
  newest to oldest for the first that qualifies; within it scan the revisions from newest
  to oldest for the first with \<open>main <= atRev\<close>; NotFound when either scan finds
  nothing.
\<close>

definition get_spec :: "keyIndex \<Rightarrow> int \<Rightarrow> error + reversion" where
  "get_spec ki atRev =
     (case find (qualifies atRev) (rev (generations ki)) of
        None \<Rightarrow> Inl ErrReversionNotFound
      | Some g \<Rightarrow>
          (case find (\<lambda>r. main r \<le> atRev) (rev (revs g)) of
             None \<Rightarrow> Inl ErrReversionNotFound
           | Some r \<Rightarrow> Inr r))"

section \<open>The loops\<close>

declare position_loop.simps [simp del]

lemma position_loop_found:
  "i \<le> g \<Longrightarrow> g < len \<Longrightarrow> position_loop len g i = g"
proof (induction len g i rule: position_loop.induct)
  case (1 len g i)
  show ?case
  proof (cases "i = g")
    case True
    with "1.prems" show ?thesis by (subst position_loop.simps) simp
  next
    case False
    with "1.prems" have "position_loop len g (i + 1) = g"
      by (intro "1.IH") auto
    with False "1.prems" show ?thesis by (subst position_loop.simps) simp
  qed
qed

lemma findGeneration_loop_Some:
  "findGeneration_loop gens a k = Some i \<Longrightarrow>
     i < k \<and> qualifies a (gens ! i) \<and> (\<forall>j. i < j \<and> j < k \<longrightarrow> \<not> qualifies a (gens ! j))"
proof (induction k)
  case 0
  then show ?case by simp
next
  case (Suc k)
  show ?case
  proof (cases "qualifies a (gens ! k)")
    case True
    with Suc.prems have "i = k"
      by (auto simp: qualifies_def hd_conv_nth split: if_splits)
    with True show ?thesis by auto
  next
    case False
    with Suc.prems have "findGeneration_loop gens a k = Some i"
      by (auto simp: qualifies_def hd_conv_nth split: if_splits)
    from Suc.IH [OF this] False show ?thesis
      by (auto simp: less_Suc_eq)
  qed
qed

lemma findGeneration_loop_None:
  "findGeneration_loop gens a k = None \<Longrightarrow> (\<forall>j < k. \<not> qualifies a (gens ! j))"
  by (induction k) (auto simp: qualifies_def hd_conv_nth less_Suc_eq split: if_splits)

lemma walk_loop_get_Suc:
  "walk_loop (get_f a) rs (Suc k) () =
     (if main (rs ! k) \<le> a then (int k, ()) else walk_loop (get_f a) rs k ())"
  by (simp add: get_f_def)

lemma walk_loop_compact_Suc:
  "walk_loop (compact_f a) rs (Suc k) av =
     (if main (rs ! k) \<le> a then (int k, insert (rs ! k) av) else walk_loop (compact_f a) rs k av)"
  by (simp add: compact_f_def)

lemma walk_loop_get_neg:
  "fst (walk_loop (get_f a) rs k ()) = - 1 \<longleftrightarrow> (\<forall>j < k. a < main (rs ! j))"
  by (induction k) (auto simp: walk_loop_get_Suc less_Suc_eq simp del: walk_loop.simps(2))

lemma walk_loop_get_pos:
  "fst (walk_loop (get_f a) rs k ()) = n \<Longrightarrow> n \<noteq> - 1 \<Longrightarrow>
     0 \<le> n \<and> nat n < k \<and> main (rs ! nat n) \<le> a \<and> (\<forall>j. nat n < j \<and> j < k \<longrightarrow> a < main (rs ! j))"
proof (induction k)
  case 0
  then show ?case by simp
next
  case (Suc k)
  show ?case
  proof (cases "main (rs ! k) \<le> a")
    case True
    with Suc.prems have "n = int k" by (simp add: walk_loop_get_Suc del: walk_loop.simps(2))
    with True show ?thesis by auto
  next
    case False
    with Suc.prems have "fst (walk_loop (get_f a) rs k ()) = n"
      by (simp add: walk_loop_get_Suc del: walk_loop.simps(2))
    from Suc.IH [OF this Suc.prems(2)] False show ?thesis
      by (auto simp: less_Suc_eq)
  qed
qed

lemma walk_loop_compact:
  "walk_loop (compact_f a) rs k av =
     (let n = fst (walk_loop (get_f a) rs k ()) in
      (n, if n = - 1 then av else insert (rs ! nat n) av))"
  by (induction k)
    (auto simp: walk_loop_get_Suc walk_loop_compact_Suc Let_def simp del: walk_loop.simps(2))

section \<open>The scenario, evaluated\<close>

lemmas eval_defs =
  isEmpty_def generation_isEmpty_def generation_zero_def findGeneration_def walk_def
  get_def get_f_def compact_def compact_f_def put_def tombstone_def newKeyIndex_def Let_def
  position_loop.simps

lemma scenario_built: "apply_mutations (newKeyIndex foo) scenario_writes = Inr scenario"
  by (simp add: scenario_writes_def scenario_def eval_defs)

section \<open>What \<open>get\<close> and \<open>compact\<close> compute\<close>

lemma findGeneration_loop_eq_Some:
  assumes "i < k" "qualifies a (gens ! i)"
    and "\<forall>j. i < j \<and> j < k \<longrightarrow> \<not> qualifies a (gens ! j)"
  shows "findGeneration_loop gens a k = Some i"
proof (cases "findGeneration_loop gens a k")
  case None
  from findGeneration_loop_None [OF this] assms show ?thesis by blast
next
  case (Some i')
  from findGeneration_loop_Some [OF this] assms have "i' = i"
    by (metis linorder_neqE_nat)
  with Some show ?thesis by simp
qed

lemma findGeneration_loop_eq_None:
  assumes "\<forall>j < k. \<not> qualifies a (gens ! j)"
  shows "findGeneration_loop gens a k = None"
proof (cases "findGeneration_loop gens a k")
  case None
  then show ?thesis .
next
  case (Some i)
  from findGeneration_loop_Some [OF this] assms show ?thesis by blast
qed

lemma walk_loop_get_eq:
  assumes "m < k" "main (rs ! m) \<le> a"
    and "\<forall>j. m < j \<and> j < k \<longrightarrow> a < main (rs ! j)"
  shows "fst (walk_loop (get_f a) rs k ()) = int m"
proof -
  define n where "n = fst (walk_loop (get_f a) rs k ())"
  have "n \<noteq> - 1"
    using assms(1,2) walk_loop_get_neg [of a rs k] unfolding n_def by auto
  from walk_loop_get_pos [OF n_def [symmetric] this] assms
  have "nat n = m"
    by (metis linorder_neqE_nat not_less)
  moreover from walk_loop_get_pos [OF n_def [symmetric] \<open>n \<noteq> - 1\<close>] have "0 \<le> n" by simp
  ultimately show ?thesis unfolding n_def by simp
qed

lemma walk_get_exists:
  assumes "qualifies a g"
  shows "\<exists>n. fst (walk g (get_f a) ()) = int n \<and> n < length (revs g) \<and>
           main (revs g ! n) \<le> a \<and> (\<forall>j. n < j \<and> j < length (revs g) \<longrightarrow> a < main (revs g ! j))"
proof -
  define n where "n = fst (walk_loop (get_f a) (revs g) (length (revs g)) ())"
  from assms have "0 < length (revs g)" "main (revs g ! 0) \<le> a"
    by (auto simp: qualifies_def hd_conv_nth)
  then have "n \<noteq> - 1"
    using walk_loop_get_neg [of a "revs g" "length (revs g)"] unfolding n_def by auto
  from walk_loop_get_pos [OF n_def [symmetric] this]
  show ?thesis unfolding walk_def n_def [symmetric]
    by (intro exI [of _ "nat n"]) simp
qed

lemma findGeneration_Some:
  "findGeneration ki a = Some i \<Longrightarrow>
     i < length (generations ki) \<and> qualifies a (generations ki ! i) \<and>
     (\<forall>j. i < j \<and> j < length (generations ki) \<longrightarrow> \<not> qualifies a (generations ki ! j))"
  unfolding findGeneration_def by (rule findGeneration_loop_Some)

lemma get_None:
  "\<not> isEmpty ki \<Longrightarrow> findGeneration ki a = None \<Longrightarrow> get ki a = Inl ErrReversionNotFound"
  by (simp add: get_def generation_isEmpty_def)

lemma get_Some:
  assumes "\<not> isEmpty ki" "findGeneration ki a = Some i"
    and "fst (walk (generations ki ! i) (get_f a) ()) = int m"
  shows "get ki a = Inr (revs (generations ki ! i) ! m)"
proof -
  from findGeneration_Some [OF assms(2)] have "revs (generations ki ! i) \<noteq> []"
    by (simp add: qualifies_def)
  with assms show ?thesis
    by (simp add: get_def generation_isEmpty_def)
qed

lemma compact_None:
  "\<not> isEmpty ki \<Longrightarrow> findGeneration ki a = None \<Longrightarrow> compact ki a av = Inr (ki, av)"
  by (simp add: compact_def)

lemma drop_update_same:
  "i < length xs \<Longrightarrow> drop i (xs[i := x]) = x # drop (Suc i) xs"
  by (metis Cons_nth_drop_Suc drop_update_cancel length_list_update lessI nth_list_update_eq)

lemma compact_Some:
  assumes "\<not> isEmpty ki" "findGeneration ki a = Some i"
    and "fst (walk (generations ki ! i) (get_f a) ()) = int n"
  shows "compact ki a av =
     (let g = generations ki ! i; b = revs g ! n in
      if length (revs g) - n = 1 \<and> Suc i \<noteq> length (generations ki)
      then Inr (ki\<lparr>generations := drop (Suc i) (generations ki)\<rparr>, insert b av - {b})
      else Inr (ki\<lparr>generations := g\<lparr>revs := drop n (revs g)\<rparr> # drop (Suc i) (generations ki)\<rparr>,
                insert b av))"
proof -
  define g where "g = generations ki ! i"
  from findGeneration_Some [OF assms(2)]
  have i: "i < length (generations ki)" and q: "qualifies a g"
    by (simp_all add: g_def)
  from q have ne: "revs g \<noteq> []" by (simp add: qualifies_def)
  from walk_get_exists [OF q] assms(3) have n: "n < length (revs g)"
    by (auto simp: g_def)
  have pos: "position_loop (length (generations ki)) i 0 = i"
    using i by (simp add: position_loop_found)
  have w: "walk g (compact_f a) av = (int n, insert (revs g ! n) av)"
    using assms(3) by (simp add: walk_def walk_loop_compact g_def Let_def)
  have neq: "(int i \<noteq> int (length (generations ki)) - 1) = (Suc i \<noteq> length (generations ki))"
    using i by auto
  show ?thesis
    unfolding compact_def g_def [symmetric] Let_def
    using assms(1,2) i n ne
    by (simp add: pos w neq generation_isEmpty_def drop_update_same g_def [symmetric]
        drop_update_cancel)
qed

lemma find_rev_take_generations:
  "k \<le> length gens \<Longrightarrow>
     find (qualifies a) (rev (take k gens)) =
       map_option (\<lambda>i. gens ! i) (findGeneration_loop gens a k)"
  by (induction k) (auto simp: take_Suc_conv_app_nth qualifies_def hd_conv_nth)

lemma find_rev_take_revs:
  "k \<le> length rs \<Longrightarrow>
     find (\<lambda>r. main r \<le> a) (rev (take k rs)) =
       (let n = fst (walk_loop (get_f a) rs k ()) in
        if n = - 1 then None else Some (rs ! nat n))"
  by (induction k)
    (auto simp: take_Suc_conv_app_nth walk_loop_get_Suc Let_def simp del: walk_loop.simps(2))

lemma findGeneration_None:
  "findGeneration ki a = None \<Longrightarrow> \<forall>j < length (generations ki). \<not> qualifies a (generations ki ! j)"
  unfolding findGeneration_def by (rule findGeneration_loop_None)

lemma findGeneration_eq_Some:
  assumes "i < length (generations ki)" "qualifies a (generations ki ! i)"
    and "\<forall>j. i < j \<and> j < length (generations ki) \<longrightarrow> \<not> qualifies a (generations ki ! j)"
  shows "findGeneration ki a = Some i"
  unfolding findGeneration_def using assms by (rule findGeneration_loop_eq_Some)

lemma findGeneration_eq_None:
  assumes "\<forall>j < length (generations ki). \<not> qualifies a (generations ki ! j)"
  shows "findGeneration ki a = None"
  unfolding findGeneration_def using assms by (rule findGeneration_loop_eq_None)

lemma walk_get_eq:
  assumes "m < length (revs g)" "main (revs g ! m) \<le> a"
    and "\<forall>j. m < j \<and> j < length (revs g) \<longrightarrow> a < main (revs g ! j)"
  shows "fst (walk g (get_f a) ()) = int m"
  unfolding walk_def using assms by (rule walk_loop_get_eq)

lemma qualifies_mono: "qualifies a g \<Longrightarrow> a \<le> r \<Longrightarrow> qualifies r g"
  by (auto simp: qualifies_def)

lemma compact_Inr_not_empty: "compact ki a av = Inr res \<Longrightarrow> \<not> isEmpty ki"
  by (auto simp: compact_def split: if_splits)

lemma compact_cases [consumes 1, case_names unchanged kept dropped]:
  assumes c: "compact ki a av = Inr (ki1, av1)"
  obtains
    (unchanged) "findGeneration ki a = None" "ki1 = ki" "av1 = av"
  | (kept) i n where "findGeneration ki a = Some i"
      "n < length (revs (generations ki ! i))"
      "main (revs (generations ki ! i) ! n) \<le> a"
      "\<forall>j. n < j \<and> j < length (revs (generations ki ! i)) \<longrightarrow>
            a < main (revs (generations ki ! i) ! j)"
      "\<not> (length (revs (generations ki ! i)) - n = 1 \<and> Suc i \<noteq> length (generations ki))"
      "ki1 = ki\<lparr>generations :=
               (generations ki ! i)\<lparr>revs := drop n (revs (generations ki ! i))\<rparr>
               # drop (Suc i) (generations ki)\<rparr>"
      "av1 = insert (revs (generations ki ! i) ! n) av"
  | (dropped) i where "findGeneration ki a = Some i"
      "Suc i < length (generations ki)"
      "revs (generations ki ! i) \<noteq> []"
      "main (last (revs (generations ki ! i))) \<le> a"
      "ki1 = ki\<lparr>generations := drop (Suc i) (generations ki)\<rparr>"
      "av1 = av - {last (revs (generations ki ! i))}"
proof -
  from c have ne: "\<not> isEmpty ki" by (rule compact_Inr_not_empty)
  show thesis
  proof (cases "findGeneration ki a")
    case None
    with ne c have "ki1 = ki" "av1 = av" by (simp_all add: compact_None)
    with None show thesis by (rule unchanged)
  next
    case (Some i)
    let ?g = "generations ki ! i"
    from findGeneration_Some [OF Some] have i: "i < length (generations ki)"
      and q: "qualifies a ?g" by simp_all
    from walk_get_exists [OF q] obtain n
      where w: "fst (walk ?g (get_f a) ()) = int n"
        and n: "n < length (revs ?g)" "main (revs ?g ! n) \<le> a"
          "\<forall>j. n < j \<and> j < length (revs ?g) \<longrightarrow> a < main (revs ?g ! j)"
      by blast
    note r = compact_Some [OF ne Some w, of av]
    show thesis
    proof (cases "length (revs ?g) - n = 1 \<and> Suc i \<noteq> length (generations ki)")
      case True
      with n(1) have l: "n = length (revs ?g) - 1" by arith
      from n(1) have nonempty: "revs ?g \<noteq> []" by auto
      then have last: "revs ?g ! n = last (revs ?g)"
        by (simp add: l last_conv_nth)
      from True i have si: "Suc i < length (generations ki)" by arith
      note nonempty
      moreover from last n(2) have "main (last (revs ?g)) \<le> a" by simp
      moreover from r c True last
      have "ki1 = ki\<lparr>generations := drop (Suc i) (generations ki)\<rparr>"
        "av1 = av - {last (revs ?g)}"
        by (auto simp: Let_def split: if_splits)
      ultimately show thesis using Some si by (intro dropped [of i])
    next
      case False
      with r c have "ki1 = ki\<lparr>generations := ?g\<lparr>revs := drop n (revs ?g)\<rparr>
               # drop (Suc i) (generations ki)\<rparr>" "av1 = insert (revs ?g ! n) av"
        by (auto simp: Let_def split: if_splits)
      with Some n False show thesis by (intro kept [of i n])
    qed
  qed
qed

section \<open>Reading after a compaction\<close>

lemma not_isEmpty_qualifies:
  assumes "j < length (generations ki)" "qualifies r (generations ki ! j)"
  shows "\<not> isEmpty ki"
  using assms by (auto simp: isEmpty_def generation_isEmpty_def qualifies_def)

lemma get_suffix:
  assumes f: "findGeneration ki r = Some j" and k: "k \<le> j"
    and g1: "generations ki1 = pre @ drop k (generations ki)"
  shows "get ki1 r = get ki r"
proof -
  let ?gens = "generations ki"
  from findGeneration_Some [OF f] have j: "j < length ?gens" and q: "qualifies r (?gens ! j)"
    and later: "\<forall>j'. j < j' \<and> j' < length ?gens \<longrightarrow> \<not> qualifies r (?gens ! j')"
    by simp_all
  let ?j1 = "length pre + (j - k)"
  have at: "generations ki1 ! ?j1 = ?gens ! j"
    using k j by (simp add: g1 nth_append)
  have j1: "?j1 < length (generations ki1)"
    using k j by (simp add: g1)
  have q1: "qualifies r (generations ki1 ! ?j1)"
    using q at by simp
  have later1: "\<forall>j'. ?j1 < j' \<and> j' < length (generations ki1) \<longrightarrow>
                  \<not> qualifies r (generations ki1 ! j')"
  proof (intro allI impI)
    fix j' assume a: "?j1 < j' \<and> j' < length (generations ki1)"
    then have "\<not> j' < length pre" by arith
    with k j have "generations ki1 ! j' = ?gens ! (k + (j' - length pre))"
      by (simp add: g1 nth_append)
    moreover from a k j have "j < k + (j' - length pre)" "k + (j' - length pre) < length ?gens"
      by (auto simp: g1)
    ultimately show "\<not> qualifies r (generations ki1 ! j')"
      using later by simp
  qed
  have f1: "findGeneration ki1 r = Some ?j1"
    using j1 q1 later1 by (rule findGeneration_eq_Some)
  from walk_get_exists [OF q] obtain m
    where m: "fst (walk (?gens ! j) (get_f r) ()) = int m" by blast
  then have m1: "fst (walk (generations ki1 ! ?j1) (get_f r) ()) = int m"
    by (simp add: at)
  have "get ki r = Inr (revs (?gens ! j) ! m)"
    using not_isEmpty_qualifies [OF j q] f m by (rule get_Some)
  moreover have "get ki1 r = Inr (revs (generations ki1 ! ?j1) ! m)"
    using not_isEmpty_qualifies [OF j1 q1] f1 m1 by (rule get_Some)
  ultimately show ?thesis by (simp add: at)
qed

lemma get_trimmed:
  assumes f: "findGeneration ki r = Some i"
    and n: "n < length (revs (generations ki ! i))" "main (revs (generations ki ! i) ! n) \<le> r"
    and g1: "generations ki1 =
       (generations ki ! i)\<lparr>revs := drop n (revs (generations ki ! i))\<rparr>
       # drop (Suc i) (generations ki)"
  shows "get ki1 r = get ki r"
proof -
  let ?gens = "generations ki"
  let ?g = "?gens ! i"
  let ?g1 = "?g\<lparr>revs := drop n (revs ?g)\<rparr>"
  from findGeneration_Some [OF f] have i: "i < length ?gens" and q: "qualifies r ?g"
    and later: "\<forall>j'. i < j' \<and> j' < length ?gens \<longrightarrow> \<not> qualifies r (?gens ! j')"
    by simp_all
  from walk_get_exists [OF q] obtain m
    where w: "fst (walk ?g (get_f r) ()) = int m"
      and m: "m < length (revs ?g)" "main (revs ?g ! m) \<le> r"
        "\<forall>j. m < j \<and> j < length (revs ?g) \<longrightarrow> r < main (revs ?g ! j)"
    by blast
  from m(3) n have nm: "n \<le> m" by (metis not_less leD)
  have q1: "qualifies r (generations ki1 ! 0)"
    using n by (simp add: g1 qualifies_def hd_drop_conv_nth)
  have l1: "0 < length (generations ki1)" by (simp add: g1)
  have later1: "\<forall>j'. 0 < j' \<and> j' < length (generations ki1) \<longrightarrow>
                  \<not> qualifies r (generations ki1 ! j')"
  proof (intro allI impI)
    fix j' assume a: "0 < j' \<and> j' < length (generations ki1)"
    then have "generations ki1 ! j' = ?gens ! (i + j')"
      by (cases j') (simp_all add: g1)
    moreover from a i have "i < i + j'" "i + j' < length ?gens"
      by (auto simp: g1)
    ultimately show "\<not> qualifies r (generations ki1 ! j')"
      using later by simp
  qed
  have f1: "findGeneration ki1 r = Some 0"
    using l1 q1 later1 by (rule findGeneration_eq_Some)
  have w1: "fst (walk (generations ki1 ! 0) (get_f r) ()) = int (m - n)"
  proof (rule walk_get_eq)
    show "m - n < length (revs (generations ki1 ! 0))"
      using m(1) nm n(1) by (simp add: g1)
    show "main (revs (generations ki1 ! 0) ! (m - n)) \<le> r"
      using m(2) nm n(1) by (simp add: g1)
    show "\<forall>j. m - n < j \<and> j < length (revs (generations ki1 ! 0)) \<longrightarrow>
            r < main (revs (generations ki1 ! 0) ! j)"
    proof (intro allI impI)
      fix j assume a: "m - n < j \<and> j < length (revs (generations ki1 ! 0))"
      with nm have "m < n + j" "n + j < length (revs ?g)" by (auto simp: g1)
      with m(3) have "r < main (revs ?g ! (n + j))" by simp
      then show "r < main (revs (generations ki1 ! 0) ! j)"
        using n(1) by (simp add: g1)
    qed
  qed
  have "get ki r = Inr (revs ?g ! m)"
    using not_isEmpty_qualifies [OF i q] f w by (rule get_Some)
  moreover have "get ki1 r = Inr (revs (generations ki1 ! 0) ! (m - n))"
    using not_isEmpty_qualifies [OF l1 q1] f1 w1 by (rule get_Some)
  ultimately show ?thesis using nm n(1) by (simp add: g1)
qed

lemma findGeneration_later:
  assumes f: "findGeneration ki a = Some i" and le: "a \<le> r"
  shows "\<exists>j. findGeneration ki r = Some j \<and> i \<le> j"
proof (cases "findGeneration ki r")
  case None
  from findGeneration_Some [OF f] findGeneration_None [OF None] le show ?thesis
    by (blast dest: qualifies_mono)
next
  case (Some j)
  have "i \<le> j"
  proof (rule ccontr)
    assume "\<not> i \<le> j"
    then have "j < i" by simp
    with findGeneration_Some [OF f] findGeneration_Some [OF Some] le show False
      by (blast dest: qualifies_mono)
  qed
  with Some show ?thesis by simp
qed

lemma suffix_not_qualifies:
  assumes f: "findGeneration ki a = Some i"
    and g1: "generations ki1 = drop (Suc i) (generations ki)"
  shows "findGeneration ki1 a = None"
proof (rule findGeneration_eq_None, intro allI impI)
  fix j assume "j < length (generations ki1)"
  then have "generations ki1 ! j = generations ki ! (Suc i + j)"
    and "Suc i + j < length (generations ki)"
    by (auto simp: g1)
  with findGeneration_Some [OF f] show "\<not> qualifies a (generations ki1 ! j)"
    by simp
qed

lemma boundary_is_last:
  assumes "n < length rs" "\<forall>j. n < j \<and> j < length rs \<longrightarrow> a < main (rs ! j)"
    and "main (last rs) \<le> (a::int)"
  shows "length rs - n = 1"
proof (rule ccontr)
  assume "length rs - n \<noteq> 1"
  with assms(1) have "n < length rs - 1" "length rs - 1 < length rs" by arith+
  with assms(2) have "a < main (rs ! (length rs - 1))" by blast
  moreover from assms(1) have "rs \<noteq> []" by auto
  ultimately show False using assms(3) by (simp add: last_conv_nth)
qed

section \<open>Compacting again\<close>

lemma compact_again:
  assumes c: "compact ki atRev av = Inr (ki1, av1)"
  shows "compact ki1 atRev av1 =
           (if isEmpty ki1 then Inl PanicCompactEmpty else Inr (ki1, av1))"
proof (cases "isEmpty ki1")
  case True
  then show ?thesis by (simp add: compact_def)
next
  case ne1: False
  from c have "compact ki1 atRev av1 = Inr (ki1, av1)"
  proof (cases rule: compact_cases)
    case unchanged
    with ne1 show ?thesis by (simp add: compact_None)
  next
    case (dropped i)
    from dropped(5) have "generations ki1 = drop (Suc i) (generations ki)" by simp
    from suffix_not_qualifies [OF dropped(1) this] ne1 show ?thesis
      by (simp add: compact_None)
  next
    case (kept i n)
    let ?g = "generations ki ! i"
    let ?g1 = "?g\<lparr>revs := drop n (revs ?g)\<rparr>"
    from kept(6) have g1: "generations ki1 = ?g1 # drop (Suc i) (generations ki)" by simp
    from findGeneration_Some [OF kept(1)] have i: "i < length (generations ki)"
      and later: "\<forall>j. i < j \<and> j < length (generations ki) \<longrightarrow>
                    \<not> qualifies atRev (generations ki ! j)"
      by simp_all
    have l1: "0 < length (generations ki1)" by (simp add: g1)
    have q1: "qualifies atRev (generations ki1 ! 0)"
      using kept(2,3) by (simp add: g1 qualifies_def hd_drop_conv_nth)
    have later1: "\<forall>j'. 0 < j' \<and> j' < length (generations ki1) \<longrightarrow>
                    \<not> qualifies atRev (generations ki1 ! j')"
    proof (intro allI impI)
      fix j' assume a: "0 < j' \<and> j' < length (generations ki1)"
      then have "generations ki1 ! j' = generations ki ! (i + j')"
        by (cases j') (simp_all add: g1)
      moreover from a i have "i < i + j'" "i + j' < length (generations ki)"
        by (auto simp: g1)
      ultimately show "\<not> qualifies atRev (generations ki1 ! j')"
        using later by simp
    qed
    have f1: "findGeneration ki1 atRev = Some 0"
      using l1 q1 later1 by (rule findGeneration_eq_Some)
    have w1: "fst (walk (generations ki1 ! 0) (get_f atRev) ()) = int 0"
    proof (rule walk_get_eq)
      from kept(2) show "0 < length (revs (generations ki1 ! 0))" by (simp add: g1)
      from kept(2,3) show "main (revs (generations ki1 ! 0) ! 0) \<le> atRev" by (simp add: g1)
      show "\<forall>j. 0 < j \<and> j < length (revs (generations ki1 ! 0)) \<longrightarrow>
              atRev < main (revs (generations ki1 ! 0) ! j)"
      proof (intro allI impI)
        fix j assume a: "0 < j \<and> j < length (revs (generations ki1 ! 0))"
        then have "n < n + j" "n + j < length (revs ?g)" by (auto simp: g1)
        with kept(4) have "atRev < main (revs ?g ! (n + j))" by simp
        then show "atRev < main (revs (generations ki1 ! 0) ! j)"
          using kept(2) by (simp add: g1)
      qed
    qed
    have same: "\<not> (length (revs (generations ki1 ! 0)) - 0 = 1 \<and>
                    Suc 0 \<noteq> length (generations ki1))"
      using kept(5) i by (auto simp: g1)
    have b: "revs (generations ki1 ! 0) ! 0 = revs ?g ! n"
      using kept(2) by (simp add: g1)
    have "compact ki1 atRev av1 =
            Inr (ki1\<lparr>generations :=
                   (generations ki1 ! 0)\<lparr>revs := drop 0 (revs (generations ki1 ! 0))\<rparr>
                   # drop (Suc 0) (generations ki1)\<rparr>,
                 insert (revs (generations ki1 ! 0) ! 0) av1)"
      using compact_Some [OF ne1 f1 w1, of av1] same
      by (auto simp: Let_def)
    also have "\<dots> = Inr (ki1, av1)"
      by (simp add: b kept(7)) (simp add: g1)
    finally show ?thesis .
  qed
  with ne1 show ?thesis by simp
qed

section \<open>What \<open>put\<close> and \<open>tombstone\<close> leave behind\<close>

lemma put_Inr:
  assumes "put ki rv subrev = Inr ki1"
  shows "rev_ki ki \<le> rv" and "rev_ki ki1 = rv" and "key ki1 = key ki"
    and "generations ki1 \<noteq> []" and "revs (last (generations ki1)) \<noteq> []"
  using assms
  by (auto simp: put_def Let_def last_conv_nth nth_list_update split: if_splits)

lemma tombstone_Inr:
  assumes "tombstone ki rv subrev = Inr ki1"
  shows "rev_ki ki \<le> rv" and "rev_ki ki1 = rv" and "2 \<le> length (generations ki1)"
proof -
  from assms obtain ki0 where p: "put ki rv subrev = Inr ki0"
    and k: "ki1 = ki0\<lparr>generations := generations ki0 @ [generation_zero]\<rparr>"
    by (auto simp: tombstone_def split: if_splits sum.splits)
  from put_Inr(1,2,4) [OF p] k
  show "rev_ki ki \<le> rv" and "rev_ki ki1 = rv" and "2 \<le> length (generations ki1)"
    by (auto simp: Suc_le_eq)
qed

lemma apply_mutation_Inr:
  assumes "apply_mutation ki w = Inr ki1"
  shows "rev_ki ki \<le> mutation_main w" and "rev_ki ki1 = mutation_main w"
  using assms by (cases w; auto dest: put_Inr(1,2) tombstone_Inr(1,2))+

lemma apply_mutations_rev:
  "apply_mutations ki ws = Inr ki1 \<Longrightarrow>
     rev_ki ki1 = Max (insert (rev_ki ki) (mutation_main ` set ws))"
proof (induction ws arbitrary: ki)
  case Nil
  then show ?case by simp
next
  case (Cons w ws)
  from Cons.prems obtain ki0 where a: "apply_mutation ki w = Inr ki0"
    and b: "apply_mutations ki0 ws = Inr ki1"
    by (auto split: sum.splits)
  from apply_mutation_Inr [OF a] have le: "rev_ki ki \<le> mutation_main w"
    and eq: "rev_ki ki0 = mutation_main w" by simp_all
  have "rev_ki ki1 = Max (insert (mutation_main w) (mutation_main ` set ws))"
    using Cons.IH [OF b] eq by simp
  also have "\<dots> = Max (insert (rev_ki ki) (insert (mutation_main w) (mutation_main ` set ws)))"
  proof -
    have ge: "mutation_main w \<le> Max (insert (mutation_main w) (mutation_main ` set ws))"
      by (rule Max_ge) auto
    have "rev_ki ki \<le> Max (insert (mutation_main w) (mutation_main ` set ws))"
      by (rule order_trans [OF le ge])
    then show ?thesis
      by (subst Max_insert [of "insert (mutation_main w) (mutation_main ` set ws)"])
        (simp_all add: max_absorb2)
  qed
  finally show ?case by simp
qed

section \<open>The claims\<close>

text \<open>
  C1, as amended. After \<open>put(1,0); put(2,0); tombstone(3,0); put(4,0); tombstone(5,0)\<close> on
  a new key index, \<open>get(2)\<close> returns \<open>{2,0}\<close> and \<open>get(3)\<close> returns \<open>{3,0}\<close>;
  \<open>get(6)\<close> returns \<open>{5,0}\<close>: \<open>findGeneration\<close> skips the empty current
  generation and selects \<open>{4,5}\<close>, whose newest revision is at most 6.
\<close>

theorem scenario_get:
  "apply_mutations (newKeyIndex foo) scenario_writes = Inr scenario \<and>
   get scenario 2 = Inr \<lparr>main = 2, sub = 0\<rparr> \<and>
   get scenario 3 = Inr \<lparr>main = 3, sub = 0\<rparr> \<and>
   get scenario 6 = Inr \<lparr>main = 5, sub = 0\<rparr>"
  by (simp add: scenario_built) (simp add: scenario_def eval_defs)

text \<open>
  C1, as stated, fails: it expects \<open>get(6)\<close> to be NotFound.
\<close>

theorem scenario_get_counterexample:
  "\<not> (apply_mutations (newKeyIndex foo) scenario_writes = Inr scenario \<and>
      get scenario 2 = Inr \<lparr>main = 2, sub = 0\<rparr> \<and>
      get scenario 3 = Inr \<lparr>main = 3, sub = 0\<rparr> \<and>
      get scenario 6 = Inl ErrReversionNotFound)"
  by (simp add: scenario_def eval_defs)

text \<open>
  C2. When the index is not empty and \<open>findGeneration\<close> returns the generation \<open>g\<close> at
  position \<open>i\<close>, there is a boundary position \<open>n\<close> in \<open>g\<close>: the newest revision with
  \<open>main <= atRev\<close>. \<open>compact\<close> adds that revision to \<open>available\<close> and keeps of \<open>g\<close>
  the boundary and everything newer. If exactly one revision is left and \<open>g\<close> is not the
  last generation, the revision is removed from \<open>available\<close> again and the generations up
  to and including \<open>g\<close> are dropped; otherwise the generations before \<open>g\<close> are dropped.
\<close>

theorem compact_boundary:
  assumes "\<not> isEmpty ki" and "findGeneration ki atRev = Some i"
  shows "\<exists>n. n < length (revs (generations ki ! i)) \<and>
           main (revs (generations ki ! i) ! n) \<le> atRev \<and>
           (\<forall>j. n < j \<and> j < length (revs (generations ki ! i)) \<longrightarrow>
                  atRev < main (revs (generations ki ! i) ! j)) \<and>
           compact ki atRev available =
             (let g = generations ki ! i; b = revs g ! n in
              if length (drop n (revs g)) = 1 \<and> Suc i \<noteq> length (generations ki)
              then Inr (ki\<lparr>generations := drop (Suc i) (generations ki)\<rparr>,
                        insert b available - {b})
              else Inr (ki\<lparr>generations :=
                              g\<lparr>revs := drop n (revs g)\<rparr> # drop (Suc i) (generations ki)\<rparr>,
                        insert b available))"
proof -
  from findGeneration_Some [OF assms(2)] have "qualifies atRev (generations ki ! i)" by simp
  from walk_get_exists [OF this] obtain n
    where n: "fst (walk (generations ki ! i) (get_f atRev) ()) = int n"
      "n < length (revs (generations ki ! i))"
      "main (revs (generations ki ! i) ! n) \<le> atRev"
      "\<forall>j. n < j \<and> j < length (revs (generations ki ! i)) \<longrightarrow>
            atRev < main (revs (generations ki ! i) ! j)"
    by blast
  from compact_Some [OF assms n(1), of available] n(2,3,4) show ?thesis
    by (intro exI [of _ n]) (simp add: Let_def)
qed

theorem compact_boundary_witness:
  "\<not> isEmpty scenario \<and> findGeneration scenario 5 = Some 1 \<and>
   compact scenario 5 {\<lparr>main = 5, sub = 0\<rparr>} = Inr (scenario_c5, {})"
proof -
  have h1: "\<not> isEmpty scenario" by (simp add: scenario_def isEmpty_def)
  have h2: "findGeneration scenario 5 = Some 1" by (simp add: scenario_def findGeneration_def)
  from compact_boundary [OF h1 h2, of "{\<lparr>main = 5, sub = 0\<rparr>}"] obtain n where
    n: "n < length (revs (generations scenario ! 1))"
      "main (revs (generations scenario ! 1) ! n) \<le> 5"
      "\<forall>j. n < j \<and> j < length (revs (generations scenario ! 1)) \<longrightarrow>
            5 < main (revs (generations scenario ! 1) ! j)"
    and c: "compact scenario 5 {\<lparr>main = 5, sub = 0\<rparr>} =
       (let g = generations scenario ! 1; b = revs g ! n in
        if length (drop n (revs g)) = 1 \<and> Suc 1 \<noteq> length (generations scenario)
        then Inr (scenario\<lparr>generations := drop (Suc 1) (generations scenario)\<rparr>,
                  insert b {\<lparr>main = 5, sub = 0\<rparr>} - {b})
        else Inr (scenario\<lparr>generations :=
                     g\<lparr>revs := drop n (revs g)\<rparr> # drop (Suc 1) (generations scenario)\<rparr>,
                  insert b {\<lparr>main = 5, sub = 0\<rparr>}))"
    by blast
  from n(1) have "n = 0 \<or> n = 1" by (auto simp: scenario_def)
  with n(3) have "n = 1" by (auto simp: scenario_def)
  with c have "compact scenario 5 {\<lparr>main = 5, sub = 0\<rparr>} = Inr (scenario_c5, {})"
    by (simp add: scenario_def scenario_c5_def)
  with h1 h2 show ?thesis by simp
qed

text \<open>
  C3, as amended. Let \<open>compact(atRev, available)\<close> return and let \<open>r >= atRev\<close>.
  \<open>get(r)\<close> then returns what it returned before the compaction, with one exception: when
  the generation \<open>g\<close> that \<open>compact\<close> found is not the last one, its last revision (its
  tombstone) has \<open>main <= atRev\<close>, and \<open>g\<close> is also the generation \<open>get(r)\<close> selects.
  \<open>compact\<close> has then dropped \<open>g\<close> with its tombstone: \<open>get(r)\<close> returned the tombstone
  before, and afterwards it returns NotFound, or panics when the compaction has left the
  index empty.
\<close>

theorem get_after_compact:
  assumes c: "compact ki atRev av = Inr (ki1, av1)" and le: "atRev \<le> r"
  shows "case findGeneration ki atRev of
           None \<Rightarrow> get ki1 r = get ki r
         | Some i \<Rightarrow>
             if findGeneration ki r = Some i \<and> Suc i < length (generations ki) \<and>
                main (last (revs (generations ki ! i))) \<le> atRev
             then get ki r = Inr (last (revs (generations ki ! i))) \<and>
                  get ki1 r = Inl (if isEmpty ki1 then PanicGetEmpty else ErrReversionNotFound)
             else get ki1 r = get ki r"
  using c
proof (cases rule: compact_cases)
  case unchanged
  then show ?thesis by simp
next
  case (kept i n)
  let ?g = "generations ki ! i"
  have notE: "\<not> (Suc i < length (generations ki) \<and> main (last (revs ?g)) \<le> atRev)"
  proof
    assume e: "Suc i < length (generations ki) \<and> main (last (revs ?g)) \<le> atRev"
    with boundary_is_last [OF kept(2) kept(4)] have "length (revs ?g) - n = 1" by simp
    with e kept(5) show False by simp
  qed
  from findGeneration_later [OF kept(1) le] obtain j
    where j: "findGeneration ki r = Some j" "i \<le> j" by blast
  have "get ki1 r = get ki r"
  proof (cases "j = i")
    case True
    from j(1) [unfolded True] kept(2) show ?thesis
    proof (rule get_trimmed)
      from kept(3) le show "main (revs ?g ! n) \<le> r" by simp
      from kept(6) show "generations ki1 = ?g\<lparr>revs := drop n (revs ?g)\<rparr> # drop (Suc i) (generations ki)"
        by simp
    qed
  next
    case False
    with j(2) have "Suc i \<le> j" by simp
    moreover from kept(6)
    have "generations ki1 = [?g\<lparr>revs := drop n (revs ?g)\<rparr>] @ drop (Suc i) (generations ki)"
      by simp
    ultimately show ?thesis using j(1) by (intro get_suffix)
  qed
  with kept(1) notE show ?thesis by auto
next
  case (dropped i)
  let ?g = "generations ki ! i"
  from dropped(5) have g1: "generations ki1 = drop (Suc i) (generations ki)" by simp
  from findGeneration_later [OF dropped(1) le] obtain j
    where j: "findGeneration ki r = Some j" "i \<le> j" by blast
  show ?thesis
  proof (cases "j = i")
    case True
    with j(1) have fr: "findGeneration ki r = Some i" by simp
    from findGeneration_Some [OF fr] have i: "i < length (generations ki)"
      and q: "qualifies r ?g" by simp_all
    have "fst (walk ?g (get_f r) ()) = int (length (revs ?g) - 1)"
    proof (rule walk_get_eq)
      from dropped(3) show "length (revs ?g) - 1 < length (revs ?g)" by simp
      from dropped(3,4) le show "main (revs ?g ! (length (revs ?g) - 1)) \<le> r"
        by (simp add: last_conv_nth)
      show "\<forall>j. length (revs ?g) - 1 < j \<and> j < length (revs ?g) \<longrightarrow> r < main (revs ?g ! j)"
        by auto
    qed
    with not_isEmpty_qualifies [OF i q] fr
    have "get ki r = Inr (revs ?g ! (length (revs ?g) - 1))" by (rule get_Some)
    with dropped(3) have before: "get ki r = Inr (last (revs ?g))"
      by (simp add: last_conv_nth)
    have after: "get ki1 r = Inl (if isEmpty ki1 then PanicGetEmpty else ErrReversionNotFound)"
    proof (cases "isEmpty ki1")
      case True
      then show ?thesis by (simp add: get_def)
    next
      case False
      with suffix_not_qualifies [OF fr g1] show ?thesis by (simp add: get_None)
    qed
    from before after fr dropped(1,2,4) show ?thesis by simp
  next
    case False
    with j(2) have "Suc i \<le> j" by simp
    moreover from g1 have "generations ki1 = [] @ drop (Suc i) (generations ki)" by simp
    ultimately have "get ki1 r = get ki r" using j(1) by (intro get_suffix)
    with dropped(1) j(1) False show ?thesis by simp
  qed
qed

theorem get_after_compact_witness:
  "compact scenario 2 {} = Inr (scenario_c2, {\<lparr>main = 2, sub = 0\<rparr>}) \<and> (2::int) \<le> 3 \<and>
   get scenario_c2 3 = get scenario 3 \<and>
   compact scenario 3 {} = Inr (scenario_c4, {}) \<and> (3::int) \<le> 3 \<and>
   get scenario 3 = Inr \<lparr>main = 3, sub = 0\<rparr> \<and> get scenario_c4 3 = Inl ErrReversionNotFound"
proof -
  have c2: "compact scenario 2 {} = Inr (scenario_c2, {\<lparr>main = 2, sub = 0\<rparr>})"
    by (simp add: scenario_def scenario_c2_def eval_defs)
  have c3: "compact scenario 3 {} = Inr (scenario_c4, {})"
    by (simp add: scenario_def scenario_c4_def eval_defs)
  have f2: "findGeneration scenario 2 = Some 0" and f3: "findGeneration scenario 3 = Some 0"
    by (simp_all add: scenario_def findGeneration_def)
  have l: "length (generations scenario) = 3"
    "last (revs (generations scenario ! 0)) = \<lparr>main = 3, sub = 0\<rparr>"
    by (simp_all add: scenario_def)
  have e4: "\<not> isEmpty scenario_c4" by (simp add: scenario_c4_def isEmpty_def)
  from get_after_compact [OF c2, of 3] f2 f3 l
  have "get scenario_c2 3 = get scenario 3" by simp
  moreover from get_after_compact [OF c3, of 3] f3 l e4
  have "get scenario 3 = Inr \<lparr>main = 3, sub = 0\<rparr> \<and> get scenario_c4 3 = Inl ErrReversionNotFound"
    by simp
  ultimately show ?thesis using c2 c3 by simp
qed

text \<open>
  C3, as stated, fails: \<open>compact(3)\<close> on the scenario drops the first generation with its
  tombstone \<open>{3,0}\<close>, and \<open>get(3)\<close>, which returned \<open>{3,0}\<close>, returns NotFound.
\<close>

theorem get_after_compact_counterexample:
  "apply_mutations (newKeyIndex foo) scenario_writes = Inr scenario \<and>
   compact scenario 3 {} = Inr (scenario_c4, {}) \<and>
   get scenario 3 = Inr \<lparr>main = 3, sub = 0\<rparr> \<and>
   get scenario_c4 3 = Inl ErrReversionNotFound \<and>
   get scenario_c4 3 \<noteq> get scenario 3"
  by (simp add: scenario_built) (simp add: scenario_def scenario_c4_def eval_defs)

text \<open>
  C4. In the scenario, \<open>compact(2)\<close>, \<open>compact(4)\<close> and \<open>compact(5)\<close> leave the single
  empty generation and \<open>isEmpty\<close> holds. A further \<open>compact(6, available)\<close> modifies
  nothing: the call stops at the guard of its first statement, and the index and
  \<open>available\<close> are after the call what they were before it, so the generations are still
  the single empty one and \<open>isEmpty\<close> still holds.
\<close>

theorem scenario_compact_empty_unchanged:
  "compact scenario 2 {} = Inr (scenario_c2, {\<lparr>main = 2, sub = 0\<rparr>}) \<and>
   compact scenario_c2 4 {\<lparr>main = 2, sub = 0\<rparr>} = Inr (scenario_c4, {\<lparr>main = 4, sub = 0\<rparr>, \<lparr>main = 2, sub = 0\<rparr>}) \<and>
   compact scenario_c4 5 {\<lparr>main = 4, sub = 0\<rparr>, \<lparr>main = 2, sub = 0\<rparr>} = Inr (scenario_c5, {\<lparr>main = 4, sub = 0\<rparr>, \<lparr>main = 2, sub = 0\<rparr>}) \<and>
   generations scenario_c5 = [generation_zero] \<and>
   isEmpty scenario_c5 \<and>
   compact scenario_c5 6 available = Inl PanicCompactEmpty \<and>
   compact_post scenario_c5 6 available = (scenario_c5, available) \<and>
   generations (fst (compact_post scenario_c5 6 available)) = [generation_zero] \<and>
   isEmpty (fst (compact_post scenario_c5 6 available))"
  by (simp add: scenario_def scenario_c2_def scenario_c4_def scenario_c5_def compact_post_def
      eval_defs)

text \<open>
  C5, as amended. On every key index for which \<open>isEmpty\<close> holds, that is with exactly one
  generation and that one empty, \<open>tombstone\<close> and \<open>get\<close> panic at once.
\<close>

theorem empty_index_panics:
  assumes "isEmpty ki"
  shows "tombstone ki rv subrev = Inl PanicTombstoneEmpty \<and> get ki atRev = Inl PanicGetEmpty"
  using assms by (simp add: tombstone_def get_def)

theorem empty_index_panics_witness:
  "isEmpty scenario_c5 \<and> tombstone scenario_c5 6 0 = Inl PanicTombstoneEmpty \<and>
   get scenario_c5 6 = Inl PanicGetEmpty"
proof -
  have h: "isEmpty scenario_c5"
    by (simp add: scenario_c5_def isEmpty_def generation_isEmpty_def)
  from h empty_index_panics [OF h, of 6 0 6] show ?thesis by simp
qed

text \<open>
  C5, as stated, fails on the index with no generations at all: \<open>isEmpty\<close> asks for
  exactly one generation, so it is false there, \<open>tombstone\<close> goes on to \<open>put\<close> and
  appends a generation, and \<open>get\<close> returns NotFound.
\<close>

theorem no_generations_counterexample:
  "tombstone (newKeyIndex foo) 1 0 =
     Inr \<lparr>key = foo, rev_ki = 1,
          generations = [\<lparr>ver = 1, revs = [\<lparr>main = 1, sub = 0\<rparr>]\<rparr>, \<lparr>ver = 0, revs = []\<rparr>]\<rparr> \<and>
   get (newKeyIndex foo) 1 = Inl ErrReversionNotFound"
  by (simp add: eval_defs)

text \<open>
  C6. On every index that is not empty, \<open>get\<close> is the lookup of the specification:
  the first qualifying generation from the newest, then its newest revision with
  \<open>main <= atRev\<close>, and NotFound when no generation qualifies.
\<close>

theorem get_refines_spec:
  assumes "\<not> isEmpty ki"
  shows "get ki atRev = get_spec ki atRev"
proof (cases "findGeneration ki atRev")
  case None
  then have "find (qualifies atRev) (rev (generations ki)) = None"
    using find_rev_take_generations [of "length (generations ki)" "generations ki" atRev]
    by (simp add: findGeneration_def)
  with None assms show ?thesis
    by (simp add: get_None get_spec_def)
next
  case (Some i)
  let ?g = "generations ki ! i"
  have sel: "find (qualifies atRev) (rev (generations ki)) = Some ?g"
    using Some find_rev_take_generations [of "length (generations ki)" "generations ki" atRev]
    by (simp add: findGeneration_def)
  from findGeneration_Some [OF Some] have "qualifies atRev ?g" by simp
  from walk_get_exists [OF this] obtain n
    where n: "fst (walk ?g (get_f atRev) ()) = int n" by blast
  then have "find (\<lambda>r. main r \<le> atRev) (rev (revs ?g)) = Some (revs ?g ! n)"
    using find_rev_take_revs [of "length (revs ?g)" "revs ?g" atRev]
    by (simp add: walk_def)
  with sel get_Some [OF assms Some n] show ?thesis
    by (simp add: get_spec_def)
qed

theorem get_refines_spec_witness:
  "\<not> isEmpty scenario \<and> get scenario 4 = get_spec scenario 4 \<and>
   get scenario 4 = Inr \<lparr>main = 4, sub = 0\<rparr>"
proof -
  have h: "\<not> isEmpty scenario" by (simp add: scenario_def isEmpty_def)
  have "get scenario 4 = Inr \<lparr>main = 4, sub = 0\<rparr>"
    by (simp add: scenario_def eval_defs)
  with h get_refines_spec [OF h, of 4] show ?thesis by simp
qed

text \<open>
  C7. For every index, every \<open>atRev\<close> and every \<open>available\<close>: a second
  \<open>compact(atRev, available)\<close>, run on what the first call left, leaves the index (and
  \<open>available\<close>) exactly as the first call left them. This covers the calls that stop at
  the guard: an index that is empty before the first call, or that the first call has
  left empty, is not written by the call that panics on it.
\<close>

theorem compact_idempotent:
  "compact_post (fst (compact_post ki atRev available)) atRev
       (snd (compact_post ki atRev available)) =
     compact_post ki atRev available"
proof (cases "compact ki atRev available")
  case (Inl e)
  then show ?thesis by (simp add: compact_post_def)
next
  case (Inr res)
  obtain ki1 av1 where res: "res = (ki1, av1)" by (cases res)
  with Inr have c: "compact ki atRev available = Inr (ki1, av1)" by simp
  from compact_again [OF c] have "compact_post ki1 atRev av1 = (ki1, av1)"
    by (simp add: compact_post_def)
  with c show ?thesis by (simp add: compact_post_def)
qed

text \<open>
  C8. After a sequence of \<open>put\<close> and \<open>tombstone\<close> calls none of which panicked, and
  which is not empty, the field \<open>rev\<close> is the largest \<open>main\<close> passed in.
\<close>

theorem latest_revision_is_max:
  assumes "apply_mutations ki ws = Inr ki1" and "ws \<noteq> []"
  shows "rev_ki ki1 = Max (mutation_main ` set ws)"
proof -
  from assms(2) obtain w ws' where ws: "ws = w # ws'" by (cases ws) auto
  with assms(1) obtain ki0 where "apply_mutation ki w = Inr ki0"
    by (auto split: sum.splits)
  from apply_mutation_Inr(1) [OF this] have "rev_ki ki \<le> mutation_main w" .
  moreover have "mutation_main w \<le> Max (mutation_main ` set ws)"
    by (simp add: ws)
  ultimately have "rev_ki ki \<le> Max (mutation_main ` set ws)" by simp
  with apply_mutations_rev [OF assms(1)] assms(2) show ?thesis
    by (simp add: max_absorb2)
qed

theorem latest_revision_is_max_witness:
  "apply_mutations (newKeyIndex foo) scenario_writes = Inr scenario \<and> scenario_writes \<noteq> [] \<and>
   rev_ki scenario = 5 \<and> Max (mutation_main ` set scenario_writes) = 5"
proof -
  have h2: "scenario_writes \<noteq> []" by (simp add: scenario_writes_def)
  have m: "Max (mutation_main ` set scenario_writes) = 5" by (simp add: scenario_writes_def)
  from latest_revision_is_max [OF scenario_built h2] m have "rev_ki scenario = 5" by simp
  with scenario_built h2 m show ?thesis by simp
qed

text \<open>
  C9. On every index that is not empty, \<open>compact\<close> returns, and the index it leaves has
  the key and the \<open>rev\<close> it had: only \<open>generations\<close> and \<open>available\<close> may differ.
\<close>

theorem compact_frame:
  assumes "\<not> isEmpty ki"
  shows "\<exists>ki1 av. compact ki atRev available = Inr (ki1, av) \<and>
           key ki1 = key ki \<and> rev_ki ki1 = rev_ki ki"
proof (cases "findGeneration ki atRev")
  case None
  with assms show ?thesis by (simp add: compact_None)
next
  case (Some i)
  from findGeneration_Some [OF Some] have "qualifies atRev (generations ki ! i)" by simp
  from walk_get_exists [OF this] obtain n
    where "fst (walk (generations ki ! i) (get_f atRev) ()) = int n" by blast
  from compact_Some [OF assms Some this, of available] show ?thesis
    by (auto simp: Let_def)
qed

theorem compact_frame_witness:
  "\<not> isEmpty scenario \<and> compact scenario 2 {} = Inr (scenario_c2, {\<lparr>main = 2, sub = 0\<rparr>}) \<and>
   key scenario_c2 = key scenario \<and> rev_ki scenario_c2 = rev_ki scenario"
proof -
  have h: "\<not> isEmpty scenario" by (simp add: scenario_def isEmpty_def)
  have c: "compact scenario 2 {} = Inr (scenario_c2, {\<lparr>main = 2, sub = 0\<rparr>})"
    by (simp add: scenario_def scenario_c2_def eval_defs)
  from compact_frame [OF h, of 2 "{}"] c
  have "key scenario_c2 = key scenario \<and> rev_ki scenario_c2 = rev_ki scenario" by simp
  with h c show ?thesis by simp
qed

text \<open>
  C10. A \<open>put\<close> that returns leaves an index that is not empty, whose last generation
  holds at least one revision; a \<open>tombstone\<close> that returns leaves an index that is not
  empty, with at least two generations.
\<close>

theorem write_not_empty:
  "(put ki rv subrev = Inr ki1 \<longrightarrow>
      \<not> isEmpty ki1 \<and> generations ki1 \<noteq> [] \<and> 1 \<le> length (revs (last (generations ki1)))) \<and>
   (tombstone ki rv subrev = Inr ki2 \<longrightarrow>
      \<not> isEmpty ki2 \<and> 2 \<le> length (generations ki2))"
proof (intro conjI impI)
  assume p: "put ki rv subrev = Inr ki1"
  from put_Inr(4,5) [OF p]
  show "generations ki1 \<noteq> []" and "1 \<le> length (revs (last (generations ki1)))"
    by (simp_all add: Suc_le_eq)
  from put_Inr(4,5) [OF p] show "\<not> isEmpty ki1"
    by (auto simp: isEmpty_def generation_isEmpty_def last_conv_nth)
next
  assume t: "tombstone ki rv subrev = Inr ki2"
  from tombstone_Inr(3) [OF t] show "2 \<le> length (generations ki2)" .
  then show "\<not> isEmpty ki2" by (simp add: isEmpty_def)
qed

theorem write_not_empty_witness:
  "put (newKeyIndex foo) 1 0 =
     Inr \<lparr>key = foo, rev_ki = 1, generations = [\<lparr>ver = 1, revs = [\<lparr>main = 1, sub = 0\<rparr>]\<rparr>]\<rparr> \<and>
   tombstone \<lparr>key = foo, rev_ki = 1, generations = [\<lparr>ver = 1, revs = [\<lparr>main = 1, sub = 0\<rparr>]\<rparr>]\<rparr> 2 0 =
     Inr \<lparr>key = foo, rev_ki = 2,
          generations = [\<lparr>ver = 2, revs = [\<lparr>main = 1, sub = 0\<rparr>, \<lparr>main = 2, sub = 0\<rparr>]\<rparr>,
                         \<lparr>ver = 0, revs = []\<rparr>]\<rparr> \<and>
   \<not> isEmpty \<lparr>key = foo, rev_ki = 1, generations = [\<lparr>ver = 1, revs = [\<lparr>main = 1, sub = 0\<rparr>]\<rparr>]\<rparr> \<and>
   \<not> isEmpty \<lparr>key = foo, rev_ki = 2,
          generations = [\<lparr>ver = 2, revs = [\<lparr>main = 1, sub = 0\<rparr>, \<lparr>main = 2, sub = 0\<rparr>]\<rparr>,
                         \<lparr>ver = 0, revs = []\<rparr>]\<rparr>"
proof -
  let ?k1 = "\<lparr>key = foo, rev_ki = 1, generations = [\<lparr>ver = 1, revs = [\<lparr>main = 1, sub = 0\<rparr>]\<rparr>]\<rparr>"
  let ?k2 = "\<lparr>key = foo, rev_ki = 2,
          generations = [\<lparr>ver = 2, revs = [\<lparr>main = 1, sub = 0\<rparr>, \<lparr>main = 2, sub = 0\<rparr>]\<rparr>,
                         \<lparr>ver = 0, revs = []\<rparr>]\<rparr>"
  have p: "put (newKeyIndex foo) 1 0 = Inr ?k1"
    by (simp add: eval_defs)
  have t: "tombstone ?k1 2 0 = Inr ?k2"
    by (simp add: eval_defs)
  from write_not_empty [of "newKeyIndex foo" 1 0 ?k1 ?k2] p have "\<not> isEmpty ?k1" by blast
  moreover from write_not_empty [of ?k1 2 0 ?k2 ?k2] t have "\<not> isEmpty ?k2" by blast
  ultimately show ?thesis using p t by blast
qed

end
